theory Spec2Isabelle
  imports Complex_Main "HOL-Library.AList"
begin

section \<open>JavaScript numbers\<close>

text \<open>
  The aggregation routines (\<open>aggregateBooksByYear\<close>, \<open>getTopAuthors\<close>,
  \<open>calculateTopicCorrelations\<close>, \<open>enhanceTopicKeywords\<close> and \<open>prepareTopicKeywords\<close> of
  \<open>index.js\<close>, and the grouping into decades of \<open>components/TemporalTrends.js\<close>) compute
  with JavaScript numbers. A finite number is modelled by a real (rounding is not
  modelled); the three non-finite values are kept, because the code divides by an array
  length that can be zero and compares the quotient afterwards. A zero divisor is always a
  length or a count here, hence the positive zero. The statements below are about counts,
  orders, strings, the empty collection and inputs on which the rounding of doubles plays
  no part; what depends on that rounding is outside this model.
\<close>

datatype jsnum = Fin real | PInf | NInf | NaN

fun js_neg :: "jsnum \<Rightarrow> jsnum" where
  "js_neg (Fin a) = Fin (- a)"
| "js_neg PInf = NInf"
| "js_neg NInf = PInf"
| "js_neg NaN = NaN"

fun js_add :: "jsnum \<Rightarrow> jsnum \<Rightarrow> jsnum" where
  "js_add NaN _ = NaN"
| "js_add _ NaN = NaN"
| "js_add (Fin a) (Fin b) = Fin (a + b)"
| "js_add PInf NInf = NaN"
| "js_add NInf PInf = NaN"
| "js_add PInf _ = PInf"
| "js_add _ PInf = PInf"
| "js_add NInf _ = NInf"
| "js_add _ NInf = NInf"

definition js_sub :: "jsnum \<Rightarrow> jsnum \<Rightarrow> jsnum" where
  "js_sub a b = js_add a (js_neg b)"

fun js_mul :: "jsnum \<Rightarrow> jsnum \<Rightarrow> jsnum" where
  "js_mul NaN _ = NaN"
| "js_mul _ NaN = NaN"
| "js_mul (Fin a) (Fin b) = Fin (a * b)"
| "js_mul (Fin a) PInf = (if a = 0 then NaN else if 0 < a then PInf else NInf)"
| "js_mul (Fin a) NInf = (if a = 0 then NaN else if 0 < a then NInf else PInf)"
| "js_mul PInf (Fin b) = (if b = 0 then NaN else if 0 < b then PInf else NInf)"
| "js_mul NInf (Fin b) = (if b = 0 then NaN else if 0 < b then NInf else PInf)"
| "js_mul PInf PInf = PInf"
| "js_mul NInf NInf = PInf"
| "js_mul PInf NInf = NInf"
| "js_mul NInf PInf = NInf"

fun js_div :: "jsnum \<Rightarrow> jsnum \<Rightarrow> jsnum" where
  "js_div NaN _ = NaN"
| "js_div _ NaN = NaN"
| "js_div (Fin a) (Fin b) =
     (if b \<noteq> 0 then Fin (a / b)
      else if a = 0 then NaN else if 0 < a then PInf else NInf)"
| "js_div (Fin a) PInf = Fin 0"
| "js_div (Fin a) NInf = Fin 0"
| "js_div PInf (Fin b) = (if 0 \<le> b then PInf else NInf)"
| "js_div NInf (Fin b) = (if 0 \<le> b then NInf else PInf)"
| "js_div PInf PInf = NaN"
| "js_div PInf NInf = NaN"
| "js_div NInf PInf = NaN"
| "js_div NInf NInf = NaN"

fun js_sqrt :: "jsnum \<Rightarrow> jsnum" where
  "js_sqrt (Fin a) = (if a < 0 then NaN else Fin (sqrt a))"
| "js_sqrt PInf = PInf"
| "js_sqrt NInf = NaN"
| "js_sqrt NaN = NaN"

text \<open>\<open>a > b\<close>: false as soon as one side is NaN.\<close>

fun js_gt :: "jsnum \<Rightarrow> jsnum \<Rightarrow> bool" where
  "js_gt NaN _ = False"
| "js_gt _ NaN = False"
| "js_gt (Fin a) (Fin b) = (b < a)"
| "js_gt PInf PInf = False"
| "js_gt PInf _ = True"
| "js_gt _ PInf = False"
| "js_gt NInf _ = False"
| "js_gt (Fin a) NInf = True"

definition js_lt :: "jsnum \<Rightarrow> jsnum \<Rightarrow> bool" where
  "js_lt a b = js_gt b a"

section \<open>Document records\<close>

text \<open>
  One row of the document-topic table. \<open>Topic d j\<close> is the field \<open>Topic_j\<close>; \<open>None\<close> is an
  absent field (\<open>undefined\<close>).
\<close>

record doc =
  Author :: "string option"
  Year :: "int option"
  Book_Title :: "string option"
  Topic :: "nat \<Rightarrow> real option"

text \<open>
  The inner loop \<open>for (j = 1; j <= 13; j++) if (doc[Topic_j] !== undefined) docTotal += doc[Topic_j]\<close>.
\<close>

definition docTotal :: "doc \<Rightarrow> real" where
  "docTotal d =
     fold (\<lambda>j total. case Topic d j of None \<Rightarrow> total | Some w \<Rightarrow> total + w) [1..<14] 0"

text \<open>The sampling prologue shared by the aggregators (lines 311-325 of the yearly one).\<close>

definition sampleSize :: "doc list \<Rightarrow> nat" where
  "sampleSize documentTopics = min 100 (length documentTopics)"

definition sampleTotal :: "doc list \<Rightarrow> real" where
  "sampleTotal documentTopics =
     fold (\<lambda>i total. total + docTotal (documentTopics ! i))
       [0..<sampleSize documentTopics] 0"

definition avgTotal :: "doc list \<Rightarrow> jsnum" where
  "avgTotal documentTopics =
     js_div (Fin (sampleTotal documentTopics)) (Fin (real (sampleSize documentTopics)))"

definition needsNormalization :: "doc list \<Rightarrow> bool" where
  "needsNormalization documentTopics = js_lt (avgTotal documentTopics) (Fin (95 / 100))"

section \<open>Yearly aggregator\<close>

text \<open>
  An object keyed by \<open>Topic_1\<close> .. \<open>Topic_13\<close> is a map from the topic number. The objects
  that accumulate are created with all thirteen keys, so \<open>obj[Topic_k] += v\<close> always finds
  its key; \<open>addAt\<close> leaves the object alone in the other case, which does not arise.
\<close>

definition zeroTopics :: "nat \<rightharpoonup> real" where
  "zeroTopics = fold (\<lambda>i obj. obj(i + 1 \<mapsto> 0)) [0..<13] Map.empty"

definition addAt :: "(nat \<rightharpoonup> real) \<Rightarrow> nat \<Rightarrow> real \<Rightarrow> (nat \<rightharpoonup> real)" where
  "addAt obj k v = (case obj k of None \<Rightarrow> obj | Some s \<Rightarrow> obj(k \<mapsto> s + v))"

definition normalizedValue :: "bool \<Rightarrow> real \<Rightarrow> real \<Rightarrow> real" where
  "normalizedValue needsNorm dt w = (if needsNorm \<and> 0 < dt then w / dt else w)"

text \<open>
  The second loop over the topics of one document: every present weight is added,
  normalized or not, to the running sums.
\<close>

definition addTopics :: "bool \<Rightarrow> doc \<Rightarrow> (nat \<rightharpoonup> real) \<Rightarrow> (nat \<rightharpoonup> real)" where
  "addTopics needsNorm d acc =
     fold (\<lambda>i obj. case Topic d i of None \<Rightarrow> obj
                    | Some w \<Rightarrow> addAt obj i (normalizedValue needsNorm (docTotal d) w))
       [1..<14] acc"

record yearEntry =
  count :: nat
  topicDistribution :: "nat \<rightharpoonup> real"

text \<open>
  \<open>booksByYear\<close> is an object keyed by the year: an association list, a new year appended.
  The guard \<open>if (!doc.Year) return\<close> skips an absent year and the year 0 alike.
\<close>

definition yearStep :: "bool \<Rightarrow> doc \<Rightarrow> (int \<times> yearEntry) list \<Rightarrow> (int \<times> yearEntry) list" where
  "yearStep needsNorm d booksByYear =
     (case Year d of None \<Rightarrow> booksByYear
      | Some y \<Rightarrow>
          if y = 0 then booksByYear
          else
            let e = (case map_of booksByYear y of
                       None \<Rightarrow> \<lparr>count = 0, topicDistribution = zeroTopics\<rparr>
                     | Some e \<Rightarrow> e)
            in AList.update y
                 \<lparr>count = count e + 1,
                  topicDistribution = addTopics needsNorm d (topicDistribution e)\<rparr>
                 booksByYear)"

definition averageYear :: "yearEntry \<Rightarrow> yearEntry" where
  "averageYear e =
     (if 0 < count e
      then e\<lparr>topicDistribution :=
               (\<lambda>topic. map_option (\<lambda>v. v / real (count e)) (topicDistribution e topic))\<rparr>
      else e)"

definition aggregateBooksByYear :: "doc list \<Rightarrow> (int \<times> yearEntry) list" where
  "aggregateBooksByYear documentTopics =
     map (\<lambda>(y, e). (y, averageYear e))
       (fold (yearStep (needsNormalization documentTopics)) documentTopics [])"

section \<open>Author aggregator\<close>

text \<open>
  \<open>String.prototype.trim\<close> on the 8-bit characters of HOL strings: the white space and line
  terminators of JavaScript in that range.
\<close>

definition isWhiteSpace :: "char \<Rightarrow> bool" where
  "isWhiteSpace c = (of_char c \<in> {9, 10, 11, 12, 13, 32, 160 :: nat})"

definition trim :: "string \<Rightarrow> string" where
  "trim s = rev (dropWhile isWhiteSpace (rev (dropWhile isWhiteSpace s)))"

record authorData =
  nameD :: string
  countD :: nat
  booksD :: "string list"
  topicSumsD :: "nat \<rightharpoonup> real"

text \<open>
  \<open>authorMap\<close> is a \<open>Map\<close>: an association list in insertion order. \<open>booksD\<close> is the \<open>Set\<close> of
  titles. The diagnostic printing of the function returns nothing and is left out.
\<close>

definition authorStep :: "bool \<Rightarrow> doc \<Rightarrow> (string \<times> authorData) list \<Rightarrow> (string \<times> authorData) list" where
  "authorStep needsNorm d authorMap =
     (case Author d of None \<Rightarrow> authorMap
      | Some a \<Rightarrow>
          if a = [] \<or> trim a = [] then authorMap
          else
            let authorName = trim a;
                ad = (case map_of authorMap authorName of
                        None \<Rightarrow> \<lparr>nameD = authorName, countD = 0, booksD = [],
                                 topicSumsD = zeroTopics\<rparr>
                      | Some ad \<Rightarrow> ad)
            in AList.update authorName
                 \<lparr>nameD = nameD ad,
                  countD = countD ad + 1,
                  booksD = (case Book_Title d of None \<Rightarrow> booksD ad
                            | Some t \<Rightarrow> if t = [] then booksD ad else List.insert t (booksD ad)),
                  topicSumsD = addTopics needsNorm d (topicSumsD ad)\<rparr>
                 authorMap)"

text \<open>
  The entry returned for an author. \<open>topicSums\<close> carries all thirteen keys, so the absent
  case of the quotient does not arise.
\<close>

record author =
  nameA :: string
  countA :: nat
  bookCountA :: nat
  topicDistributionA :: "nat \<rightharpoonup> real"
  totalDistributionA :: real

definition toAuthor :: "authorData \<Rightarrow> author" where
  "toAuthor a =
     (let dist = fold (\<lambda>i obj. obj(i \<mapsto>
                   (if 0 < countD a
                    then (case topicSumsD a i of None \<Rightarrow> 0 | Some s \<Rightarrow> s / real (countD a))
                    else 0)))
                 [1..<14] Map.empty
      in \<lparr>nameA = nameD a, countA = countD a, bookCountA = length (booksD a),
          topicDistributionA = dist,
          totalDistributionA =
            fold (\<lambda>i totalDist. case dist i of None \<Rightarrow> totalDist | Some v \<Rightarrow> totalDist + v)
              [1..<14] 0\<rparr>)"

text \<open>
  \<open>authors.sort((a, b) => b.count - a.count)\<close> is a stable sort by descending count, and
  \<open>slice(0, topN)\<close> with a count \<open>topN\<close> is \<open>take\<close>.
\<close>

definition authors :: "doc list \<Rightarrow> author list" where
  "authors documentTopics =
     map (\<lambda>(k, a). toAuthor a)
       (fold (authorStep (needsNormalization documentTopics)) documentTopics [])"

definition getTopAuthors :: "doc list \<Rightarrow> nat \<Rightarrow> author list" where
  "getTopAuthors documentTopics topN =
     take topN (sort_key (\<lambda>a. - int (countA a)) (authors documentTopics))"

section \<open>Decade aggregator\<close>

record yearItem = yearEntry +
  year :: int

definition yearData :: "(int \<times> yearEntry) list \<Rightarrow> yearItem list" where
  "yearData booksByYear =
     sort_key year
       (map (\<lambda>(y, e). \<lparr>count = count e, topicDistribution = topicDistribution e, year = y\<rparr>)
          booksByYear)"

record decadeEntry =
  decade :: int
  totalBooks :: nat
  years :: "yearItem list"
  topicSums :: "nat \<rightharpoonup> real"
  dominantTopics :: "nat \<rightharpoonup> real"
  dominantTopic :: "nat option"

text \<open>The initialisation of \<open>topicSums\<close> and \<open>dominantTopics\<close> for a new decade.\<close>

definition zeroSums :: "nat \<rightharpoonup> real" where
  "zeroSums = fold (\<lambda>i obj. obj(i \<mapsto> 0)) [1..<14] Map.empty"

definition newDecade :: "int \<Rightarrow> decadeEntry" where
  "newDecade dec =
     \<lparr>decade = dec, totalBooks = 0, years = [], topicSums = zeroSums,
      dominantTopics = zeroSums, dominantTopic = None\<rparr>"

text \<open>
  The loop that sums the topic values of a year into its decade starts at \<open>i = 2\<close> in the
  source; the model keeps the bound.
\<close>

definition addYear :: "yearItem \<Rightarrow> (nat \<rightharpoonup> real) \<Rightarrow> (nat \<rightharpoonup> real)" where
  "addYear yearItem ts =
     fold (\<lambda>i obj. case topicDistribution yearItem i of None \<Rightarrow> obj
                    | Some v \<Rightarrow> addAt obj i (v * real (count yearItem)))
       [2..<14] ts"

definition decadeStep :: "yearItem \<Rightarrow> (int \<times> decadeEntry) list \<Rightarrow> (int \<times> decadeEntry) list" where
  "decadeStep yearItem decadeData =
     (let dec = (year yearItem div 10) * 10;
          d = (case map_of decadeData dec of None \<Rightarrow> newDecade dec | Some d \<Rightarrow> d)
      in AList.update dec
           (d\<lparr>totalBooks := totalBooks d + count yearItem,
              years := years d @ [yearItem],
              topicSums := addYear yearItem (topicSums d)\<rparr>)
           decadeData)"

definition divideSums :: "nat \<Rightarrow> (nat \<rightharpoonup> real) \<Rightarrow> (nat \<rightharpoonup> real)" where
  "divideSums n ts =
     fold (\<lambda>i obj. case obj i of None \<Rightarrow> obj | Some s \<Rightarrow> obj(i \<mapsto> s / real n)) [1..<14] ts"

definition averageDecade :: "decadeEntry \<Rightarrow> decadeEntry" where
  "averageDecade d =
     (if 0 < totalBooks d then d\<lparr>topicSums := divideSums (totalBooks d) (topicSums d)\<rparr> else d)"

text \<open>
  The scan for the dominant topic: \<open>maxTopic = null\<close>, \<open>maxValue = -Infinity\<close>, replaced when
  \<open>topicSums[Topic_i] > maxValue\<close> (never for an absent value).
\<close>

definition scanStep :: "(nat \<rightharpoonup> real) \<Rightarrow> nat \<Rightarrow> nat option \<times> jsnum \<Rightarrow> nat option \<times> jsnum" where
  "scanStep ts = (\<lambda>i (maxTopic, maxValue).
     case ts i of None \<Rightarrow> (maxTopic, maxValue)
     | Some v \<Rightarrow> if js_gt (Fin v) maxValue then (Some i, Fin v) else (maxTopic, maxValue))"

definition scanDominant :: "(nat \<rightharpoonup> real) \<Rightarrow> nat option \<times> jsnum" where
  "scanDominant ts = fold (scanStep ts) [1..<14] (None, NInf)"

definition finishDecade :: "decadeEntry \<Rightarrow> decadeEntry" where
  "finishDecade d =
     (let d' = averageDecade d in d'\<lparr>dominantTopic := fst (scanDominant (topicSums d'))\<rparr>)"

definition decadeArray :: "(int \<times> yearEntry) list \<Rightarrow> decadeEntry list" where
  "decadeArray booksByYear =
     sort_key decade
       (map (\<lambda>(k, d). finishDecade d) (fold decadeStep (yearData booksByYear) []))"

text \<open>The decade mean of a topic in the specification's words: the count-weighted sum of
  the yearly means of the decade's years over the decade's document count.\<close>

definition inDecade :: "int \<Rightarrow> int \<times> yearEntry \<Rightarrow> bool" where
  "inDecade dec = (\<lambda>(y, e). (y div 10) * 10 = dec)"

definition spec_decadeMean :: "(int \<times> yearEntry) list \<Rightarrow> int \<Rightarrow> nat \<Rightarrow> real" where
  "spec_decadeMean booksByYear dec k =
     (\<Sum>(y, e)\<leftarrow>filter (inDecade dec) booksByYear.
        real (count e) * (case topicDistribution e k of None \<Rightarrow> 0 | Some v \<Rightarrow> v))
     / real (\<Sum>(y, e)\<leftarrow>filter (inDecade dec) booksByYear. count e)"

text \<open>An object that carries all thirteen topic keys.\<close>

definition allTopics :: "(nat \<rightharpoonup> real) \<Rightarrow> bool" where
  "allTopics ts = (\<forall>i\<in>{1..13}. ts i \<noteq> None)"

section \<open>Correlation engine\<close>

definition numTopics :: nat where
  "numTopics = 13"

definition normalizedValues :: "bool \<Rightarrow> doc \<Rightarrow> real list" where
  "normalizedValues needsNorm d =
     fold (\<lambda>i vals.
             vals @ [let val = (case Topic d i of None \<Rightarrow> 0 | Some w \<Rightarrow> w)
                     in if needsNorm \<and> 0 < docTotal d then val / docTotal d else val])
       [1..<Suc numTopics] []"

definition normalizedDocs :: "doc list \<Rightarrow> real list list" where
  "normalizedDocs documentTopics =
     map (normalizedValues (needsNormalization documentTopics)) documentTopics"

text \<open>
  From here on the arrays hold \<open>jsnum\<close>s: every statistic is divided by \<open>docCount\<close>, the
  length of the collection.
\<close>

definition topicMeans :: "real list list \<Rightarrow> nat \<Rightarrow> jsnum list" where
  "topicMeans nd docCount =
     fold (\<lambda>i means. means[i := js_div (means ! i) (Fin (real docCount))]) [0..<numTopics]
       (fold (\<lambda>vals means.
                fold (\<lambda>i means. means[i := js_add (means ! i) (Fin (vals ! i))])
                  [0..<numTopics] means)
          nd (replicate numTopics (Fin 0)))"

definition deviation :: "real list \<Rightarrow> jsnum list \<Rightarrow> nat \<Rightarrow> jsnum" where
  "deviation vals means i = js_sub (Fin (vals ! i)) (means ! i)"

definition covarianceMatrix :: "real list list \<Rightarrow> jsnum list \<Rightarrow> nat \<Rightarrow> jsnum list list" where
  "covarianceMatrix nd means docCount =
     fold (\<lambda>i cov.
             fold (\<lambda>j cov. cov[i := (cov ! i)[j := js_div (cov ! i ! j) (Fin (real docCount))]])
               [0..<numTopics] cov)
       [0..<numTopics]
       (fold (\<lambda>vals cov.
                fold (\<lambda>i cov.
                        fold (\<lambda>j cov.
                                cov[i := (cov ! i)[j :=
                                  js_add (cov ! i ! j)
                                    (js_mul (deviation vals means i) (deviation vals means j))]])
                          [0..<numTopics] cov)
                  [0..<numTopics] cov)
          nd (replicate numTopics (replicate numTopics (Fin 0))))"

definition topicVariances :: "real list list \<Rightarrow> jsnum list \<Rightarrow> jsnum list" where
  "topicVariances nd means =
     fold (\<lambda>vals var.
             fold (\<lambda>i var.
                     var[i := js_add (var ! i)
                                (js_mul (deviation vals means i) (deviation vals means i))])
               [0..<numTopics] var)
       nd (replicate numTopics (Fin 0))"

definition topicStdDevs :: "real list list \<Rightarrow> jsnum list \<Rightarrow> nat \<Rightarrow> jsnum list" where
  "topicStdDevs nd means docCount =
     map (\<lambda>v. js_sqrt (js_div v (Fin (real docCount)))) (topicVariances nd means)"

definition correlationMatrix :: "jsnum list list \<Rightarrow> jsnum list \<Rightarrow> jsnum list list" where
  "correlationMatrix cov std =
     fold (\<lambda>i corr.
             fold (\<lambda>j corr.
                     corr[i := (corr ! i)[j :=
                       (if js_gt (std ! i) (Fin 0) \<and> js_gt (std ! j) (Fin 0)
                        then js_div (cov ! i ! j) (js_mul (std ! i) (std ! j))
                        else Fin 0)]])
               [0..<numTopics] corr)
       [0..<numTopics] (replicate numTopics (replicate numTopics (Fin 0)))"

definition calculateTopicCorrelations :: "doc list \<Rightarrow> jsnum list list" where
  "calculateTopicCorrelations documentTopics =
     (let nd = normalizedDocs documentTopics;
          docCount = length documentTopics;
          means = topicMeans nd docCount
      in correlationMatrix (covarianceMatrix nd means docCount)
           (topicStdDevs nd means docCount))"

section \<open>Keyword merger\<close>

text \<open>
  The keyword lists are arrays shared by reference between the argument and the result, so
  they live in a store: a list of arrays, an address being an index. A topic entry holds
  the address of its keyword array, an allocated one; its own fields are never assigned.
\<close>

type_synonym addr = nat
type_synonym store = "string list list"

record topic =
  id' :: int
  name :: string
  keywords' :: addr

record wordItem =
  topic_id :: int
  word :: string

text \<open>
  One round of \<open>expandedWordlist.forEach\<close>. \<open>enhancedKeywords\<close> is the spread copy: a new
  outer array holding the same entries.
\<close>

definition enhanceStep :: "topic list \<Rightarrow> wordItem \<Rightarrow> store \<Rightarrow> store" where
  "enhanceStep enhancedKeywords wordItem st =
     (if topic_id wordItem = 0 \<or> word wordItem = [] then st
      else case find (\<lambda>t. id' t = topic_id wordItem) enhancedKeywords of
             None \<Rightarrow> st
           | Some t \<Rightarrow>
               if word wordItem \<in> set (st ! keywords' t) then st
               else st[keywords' t := st ! keywords' t @ [word wordItem]])"

definition enhanceTopicKeywords :: "store \<Rightarrow> topic list \<Rightarrow> wordItem list \<Rightarrow> store \<times> topic list" where
  "enhanceTopicKeywords st topicKeywords expandedWordlist =
     (let enhancedKeywords = topicKeywords
      in (fold (enhanceStep enhancedKeywords) expandedWordlist st, enhancedKeywords))"

text \<open>
  \<open>prepareTopicKeywords\<close> builds the base entries from the rows of the keyword table, the
  first row being a header; \<open>filter(Boolean)\<close> allocates a new array without the empty
  strings.
\<close>

record topicLabel =
  Topic_Number :: string
  Topic_Name :: string

fun showNat :: "nat \<Rightarrow> string" where
  "showNat n =
     (if n < 10 then [char_of (48 + n)] else showNat (n div 10) @ [char_of (48 + n mod 10)])"

definition prepareStep :: "string list list \<Rightarrow> topicLabel list \<Rightarrow> nat \<Rightarrow> store \<times> topic list \<Rightarrow> store \<times> topic list" where
  "prepareStep nmfTopics topicLabels i = (\<lambda>(st, topics).
     let keywordRow = nmfTopics ! i;
         topicIndex = i - 1;
         topicName = (case find (\<lambda>label. Topic_Number label = ''Topic '' @ showNat (topicIndex + 1))
                             topicLabels of
                        None \<Rightarrow> ''Topic '' @ showNat (topicIndex + 1)
                      | Some label \<Rightarrow> Topic_Name label)
     in (st @ [filter (\<lambda>w. w \<noteq> []) keywordRow],
         topics @ [\<lparr>id' = int (topicIndex + 1), name = topicName, keywords' = length st\<rparr>]))"

definition prepareTopicKeywords :: "store \<Rightarrow> string list list \<Rightarrow> topicLabel list \<Rightarrow> store \<times> topic list" where
  "prepareTopicKeywords st nmfTopics topicLabels =
     fold (prepareStep nmfTopics topicLabels) [1..<length nmfTopics] (st, [])"

text \<open>The order in which the words of a list are first seen.\<close>

fun firstSeen :: "'a list \<Rightarrow> 'a list" where
  "firstSeen [] = []"
| "firstSeen (x # xs) = x # firstSeen (filter (\<lambda>y. y \<noteq> x) xs)"


section \<open>Notions used in the statements\<close>

text \<open>The documents that pass the guard of the yearly aggregator.\<close>

definition hasYear :: "doc \<Rightarrow> bool" where
  "hasYear d = (Year d \<noteq> None \<and> Year d \<noteq> Some 0)"

text \<open>
  The base entry a row of the expanded wordlist is merged into: none for a row whose topic
  id is 0 or whose word is empty, else the first entry with the row's topic id.
\<close>

definition target :: "topic list \<Rightarrow> wordItem \<Rightarrow> topic option" where
  "target topics wordItem =
     (if topic_id wordItem = 0 \<or> word wordItem = [] then None
      else find (\<lambda>t. id' t = topic_id wordItem) topics)"

text \<open>Appending an element to a list that does not hold it yet.\<close>

definition addNew :: "'a \<Rightarrow> 'a list \<Rightarrow> 'a list" where
  "addNew w ks = (if w \<in> set ks then ks else ks @ [w])"

text \<open>
  The author a document is filed under: none when the field is absent or blank after
  trimming.
\<close>

definition authorOf :: "doc \<Rightarrow> string option" where
  "authorOf d =
     (case Author d of None \<Rightarrow> None
      | Some a \<Rightarrow> if a = [] \<or> trim a = [] then None else Some (trim a))"

text \<open>
  The document count of a name in the author map, and the shape of the map: one entry per
  name, each carrying its key as its name.
\<close>

definition cnt :: "(string \<times> authorData) list \<Rightarrow> string \<Rightarrow> nat" where
  "cnt authorMap k = (case map_of authorMap k of None \<Rightarrow> 0 | Some a \<Rightarrow> countD a)"

definition wellKeyed :: "(string \<times> authorData) list \<Rightarrow> bool" where
  "wellKeyed m = (distinct (map fst m) \<and> (\<forall>(k, a)\<in>set m. nameD a = k))"

text \<open>A matrix of \<open>n\<close> rows of length \<open>n\<close>.\<close>

definition square :: "nat \<Rightarrow> 'a list list \<Rightarrow> bool" where
  "square n M = (length M = n \<and> (\<forall>i<n. length (M ! i) = n))"

section \<open>Example data\<close>

text \<open>A row carrying the weights \<open>ws\<close> in its first topic fields and no other topic field.\<close>

definition topicsOf :: "real list \<Rightarrow> nat \<Rightarrow> real option" where
  "topicsOf ws j = (if 1 \<le> j \<and> j \<le> length ws then Some (ws ! (j - 1)) else None)"

definition row :: "string option \<Rightarrow> int option \<Rightarrow> real list \<Rightarrow> doc" where
  "row a y ws = \<lparr>Author = a, Year = y, Book_Title = None, Topic = topicsOf ws\<rparr>"

text \<open>Six rows by three authors; one author field is blank and one is absent.\<close>

definition sixRows :: "doc list" where
  "sixRows =
     [row (Some '' B '') None [1], row (Some ''A'') None [1], row (Some ''  '') None [1],
      row None None [1], row (Some ''C'') None [1], row (Some ''A '') None [1]]"

section \<open>Yearly aggregator: document counts\<close>

lemma count_sum_update:
  "(\<Sum>(y, e)\<leftarrow>AList.update k v al. count e)
     + (case map_of al k of None \<Rightarrow> 0 | Some e \<Rightarrow> count e)
   = (\<Sum>(y, e)\<leftarrow>al. count e) + count v"
  by (induction al) (auto split: option.splits)

lemma yearStep_skip: "\<not> hasYear d \<Longrightarrow> yearStep f d b = b"
  by (auto simp: yearStep_def hasYear_def split: option.splits)

lemma yearStep_count:
  assumes "hasYear d"
  shows "(\<Sum>(y, e)\<leftarrow>yearStep f d b. count e) = (\<Sum>(y, e)\<leftarrow>b. count e) + 1"
proof -
  from assms obtain y where y: "Year d = Some y" "y \<noteq> 0"
    by (auto simp: hasYear_def)
  show ?thesis
  proof (cases "map_of b y")
    case None
    then show ?thesis
      using y count_sum_update[of y "\<lparr>count = 1, topicDistribution = addTopics f d zeroTopics\<rparr>" b]
      by (simp add: yearStep_def)
  next
    case (Some a)
    then show ?thesis
      using y count_sum_update[of y
          "\<lparr>count = count a + 1, topicDistribution = addTopics f d (topicDistribution a)\<rparr>" b]
      by (simp add: yearStep_def)
  qed
qed

lemma fold_yearStep_count:
  "(\<Sum>(y, e)\<leftarrow>fold (yearStep f) docs b. count e)
   = (\<Sum>(y, e)\<leftarrow>b. count e) + length (filter hasYear docs)"
proof (induction docs arbitrary: b)
  case Nil
  show ?case by simp
next
  case (Cons d docs)
  show ?case
    by (cases "hasYear d") (simp_all add: Cons.IH yearStep_skip yearStep_count)
qed

lemma fold_yearStep_filter:
  "fold (yearStep f) docs b = fold (yearStep f) (filter hasYear docs) b"
  by (induction docs arbitrary: b) (simp_all add: yearStep_skip)

lemma count_averageYear: "count (averageYear e) = count e"
  by (simp add: averageYear_def)

lemma count_sum_average:
  "(\<Sum>(y, e)\<leftarrow>map (\<lambda>(y, e). (y, averageYear e)) b. count e) = (\<Sum>(y, e)\<leftarrow>b. count e)"
  by (induction b) (auto simp: count_averageYear)

lemma yearStep_distinct:
  "distinct (map fst b) \<Longrightarrow> distinct (map fst (yearStep f d b))"
  by (auto simp: yearStep_def Let_def distinct_update split: option.splits)

lemma fold_yearStep_distinct:
  "distinct (map fst b) \<Longrightarrow> distinct (map fst (fold (yearStep f) docs b))"
  by (induction docs arbitrary: b) (simp_all add: yearStep_distinct)

lemma aggregateBooksByYear_distinct: "distinct (map fst (aggregateBooksByYear docs))"
proof -
  have "map fst (map (\<lambda>(y, e). (y, averageYear e)) b) = map fst b" for b :: "(int \<times> yearEntry) list"
    by (induction b) auto
  then show ?thesis
    unfolding aggregateBooksByYear_def by (simp only: fold_yearStep_distinct list.map distinct.simps)
qed

text \<open>
  C4, as the specification states it, fails: a document whose year is 0 has a defined year
  and is skipped by the guard \<open>!doc.Year\<close> all the same.
\<close>

theorem yearly_documentCount_defined_year_counterexample:
  "(\<Sum>(y, e)\<leftarrow>aggregateBooksByYear [row None (Some 0) []]. count e)
   \<noteq> length [d\<leftarrow>[row None (Some 0) []]. Year d \<noteq> None]"
  by (simp add: aggregateBooksByYear_def yearStep_def row_def)

text \<open>
  C4, amended. The result has one entry per year, and the per-year document counts add up
  to the number of input documents whose year is present and not 0; the other documents
  are excluded from every yearly aggregate: the result is the one computed from the
  remaining documents alone, under the normalization flag of the whole collection.
\<close>

theorem yearly_documentCount:
  "distinct (map fst (aggregateBooksByYear docs))
   \<and> (\<Sum>(y, e)\<leftarrow>aggregateBooksByYear docs. count e) = length (filter hasYear docs)
   \<and> aggregateBooksByYear docs =
       map (\<lambda>(y, e). (y, averageYear e))
         (fold (yearStep (needsNormalization docs)) (filter hasYear docs) [])"
proof (intro conjI)
  show "distinct (map fst (aggregateBooksByYear docs))"
    by (rule aggregateBooksByYear_distinct)
  show "(\<Sum>(y, e)\<leftarrow>aggregateBooksByYear docs. count e) = length (filter hasYear docs)"
    unfolding aggregateBooksByYear_def count_sum_average fold_yearStep_count by simp
  show "aggregateBooksByYear docs =
       map (\<lambda>(y, e). (y, averageYear e))
         (fold (yearStep (needsNormalization docs)) (filter hasYear docs) [])"
    unfolding aggregateBooksByYear_def using fold_yearStep_filter by simp
qed

theorem yearly_documentCount_witness:
  "(\<Sum>(y, e)\<leftarrow>aggregateBooksByYear
       [row None (Some 1950) [6 / 10, 4 / 10], row None None [1], row None (Some 0) [1],
        row None (Some 1950) [1]]. count e) = 2"
proof -
  have "length (filter hasYear
       [row None (Some 1950) [6 / 10, 4 / 10], row None None [1], row None (Some 0) [1],
        row None (Some 1950) [1]]) = 2"
    by (simp add: hasYear_def row_def)
  then show ?thesis
    using yearly_documentCount[of
      "[row None (Some 1950) [6 / 10, 4 / 10], row None None [1], row None (Some 0) [1],
        row None (Some 1950) [1]]", THEN conjunct2, THEN conjunct1]
    by (simp only:)
qed

section \<open>Decade aggregator: means and dominant topic\<close>

lemma scan_first_max:
  assumes "\<forall>i\<in>set xs. ts i \<noteq> None" "xs \<noteq> []"
  shows "\<exists>k v pre post. fold (scanStep ts) xs (None, NInf) = (Some k, Fin v) \<and> ts k = Some v
            \<and> xs = pre @ k # post
            \<and> (\<forall>j\<in>set pre. \<forall>u. ts j = Some u \<longrightarrow> u < v)
            \<and> (\<forall>j\<in>set post. \<forall>u. ts j = Some u \<longrightarrow> u \<le> v)"
  using assms
proof (induction xs rule: rev_induct)
  case Nil
  then show ?case by simp
next
  case (snoc x xs)
  from snoc.prems obtain vx where vx: "ts x = Some vx" by auto
  show ?case
  proof (cases "xs = []")
    case True
    have "fold (scanStep ts) (xs @ [x]) (None, NInf) = (Some x, Fin vx)"
      using True vx by (simp add: scanStep_def)
    then show ?thesis
      using vx True by (intro exI[of _ x] exI[of _ vx] exI[of _ "[]"]) simp
  next
    case False
    have "\<forall>i\<in>set xs. ts i \<noteq> None" using snoc.prems by simp
    from snoc.IH[OF this False] obtain k v pre post where
      r: "fold (scanStep ts) xs (None, NInf) = (Some k, Fin v)" "ts k = Some v"
         "xs = pre @ k # post"
         "\<forall>j\<in>set pre. \<forall>u. ts j = Some u \<longrightarrow> u < v"
         "\<forall>j\<in>set post. \<forall>u. ts j = Some u \<longrightarrow> u \<le> v"
      by blast
    show ?thesis
    proof (cases "v < vx")
      case True
      have "fold (scanStep ts) (xs @ [x]) (None, NInf) = (Some x, Fin vx)"
        using r(1) vx True by (simp add: scanStep_def)
      moreover have "\<forall>j\<in>set xs. \<forall>u. ts j = Some u \<longrightarrow> u < vx"
        using r(2-5) True by fastforce
      ultimately show ?thesis
        using vx by (intro exI[of _ x] exI[of _ vx] exI[of _ xs] exI[of _ "[]"]) simp
    next
      case False
      have "fold (scanStep ts) (xs @ [x]) (None, NInf) = (Some k, Fin v)"
        using r(1) vx False by (simp add: scanStep_def)
      then show ?thesis
        using r(2-5) vx False
        by (intro exI[of _ k] exI[of _ v] exI[of _ pre] exI[of _ "post @ [x]"]) auto
    qed
  qed
qed

lemma upt_split_less:
  assumes "[a..<b] = pre @ k # post" "j \<in> set [a..<b]" "j < k"
  shows "j \<in> set pre"
proof -
  have "sorted (pre @ k # post)" using assms(1) by (metis sorted_upt)
  then have "\<forall>y\<in>set post. k \<le> y" by (simp add: sorted_append)
  then show ?thesis using assms by auto
qed

lemma scanDominant_first_max:
  assumes "allTopics ts"
  shows "\<exists>k v. fst (scanDominant ts) = Some k \<and> k \<in> {1..13} \<and> ts k = Some v
           \<and> (\<forall>j\<in>{1..13}. \<exists>u. ts j = Some u \<and> u \<le> v \<and> (j < k \<longrightarrow> u < v))"
proof -
  have a: "\<forall>i\<in>set [1..<14]. ts i \<noteq> None" using assms by (auto simp: allTopics_def)
  have "[1..<14::nat] \<noteq> []" by simp
  from scan_first_max[OF a this] obtain k v pre post where
    r: "fold (scanStep ts) [1..<14] (None, NInf) = (Some k, Fin v)" "ts k = Some v"
       "[1..<14] = pre @ k # post"
       "\<forall>j\<in>set pre. \<forall>u. ts j = Some u \<longrightarrow> u < v"
       "\<forall>j\<in>set post. \<forall>u. ts j = Some u \<longrightarrow> u \<le> v"
    by blast
  have k: "k \<in> set [1..<14]" by (subst r(3)) simp
  have "\<exists>u. ts j = Some u \<and> u \<le> v \<and> (j < k \<longrightarrow> u < v)" if j: "j \<in> {1..13}" for j
  proof -
    have "ts j \<noteq> None" using j assms unfolding allTopics_def by blast
    then obtain u where u: "ts j = Some u" by blast
    have jm: "j \<in> set (pre @ k # post)" using j by (subst r(3)[symmetric]) auto
    have "u \<le> v" using jm u r(2,4,5) by fastforce
    moreover have "u < v" if "j < k"
      using upt_split_less[OF r(3) _ that] j u r(4) by auto
    ultimately show ?thesis using u by simp
  qed
  moreover have "fst (scanDominant ts) = Some k"
    using r(1) by (simp only: scanDominant_def fst_conv)
  ultimately show ?thesis using k r(2) by auto
qed


lemma update_member:
  "p \<in> set (AList.update k v al) \<Longrightarrow> p = (k, v) \<or> p \<in> set al"
  by (induction al) (auto split: if_splits)

lemma dom_addAt: "dom (addAt obj k v) = dom obj"
  by (auto simp: addAt_def split: option.splits)

lemma dom_fold_invariant:
  assumes "\<And>i obj. dom (f i obj) = dom obj"
  shows "dom (fold f xs obj) = dom obj"
  by (induction xs arbitrary: obj) (simp_all add: assms)

lemma dom_divideSums: "dom (divideSums n ts) = dom ts"
  unfolding divideSums_def
  by (rule dom_fold_invariant) (auto split: option.splits)

lemma dom_addYear: "dom (addYear yearItem ts) = dom ts"
  unfolding addYear_def
  by (rule dom_fold_invariant) (simp add: dom_addAt split: option.splits)

lemma fold_zero_apply:
  "fold (\<lambda>i obj. obj(i \<mapsto> 0::real)) xs m i = (if i \<in> set xs then Some 0 else m i)"
  by (induction xs arbitrary: m) auto

lemma allTopics_dom: "allTopics ts \<longleftrightarrow> {1..13} \<subseteq> dom ts"
  by (auto simp: allTopics_def)

lemma allTopics_zeroSums: "allTopics zeroSums"
  unfolding allTopics_def zeroSums_def fold_zero_apply by auto

lemma allTopics_decadeStep:
  assumes "\<And>k d. (k, d) \<in> set decadeData \<Longrightarrow> allTopics (topicSums d)"
    and "(k, d) \<in> set (decadeStep yearItem decadeData)"
  shows "allTopics (topicSums d)"
proof -
  define dec where "dec = (year yearItem div 10) * 10"
  define d0 where "d0 = (case map_of decadeData dec of None \<Rightarrow> newDecade dec | Some d \<Rightarrow> d)"
  define d1 where "d1 = d0\<lparr>totalBooks := totalBooks d0 + count yearItem,
              years := years d0 @ [yearItem],
              topicSums := addYear yearItem (topicSums d0)\<rparr>"
  have step: "decadeStep yearItem decadeData = AList.update dec d1 decadeData"
    by (simp only: decadeStep_def Let_def dec_def d0_def d1_def)
  have a0: "allTopics (topicSums d0)"
  proof (cases "map_of decadeData dec")
    case None
    then show ?thesis by (simp add: d0_def newDecade_def allTopics_zeroSums)
  next
    case (Some x)
    then have "(dec, x) \<in> set decadeData" by (rule map_of_SomeD)
    then show ?thesis using assms(1) Some by (simp add: d0_def)
  qed
  have a1: "allTopics (topicSums d1)"
    using a0 by (simp add: d1_def allTopics_dom dom_addYear)
  from assms(2) have "(k, d) = (dec, d1) \<or> (k, d) \<in> set decadeData"
    unfolding step by (rule update_member)
  then show ?thesis using a1 assms(1) by auto
qed

lemma allTopics_fold_decadeStep:
  assumes "\<And>k d. (k, d) \<in> set decadeData \<Longrightarrow> allTopics (topicSums d)"
    and "(k, d) \<in> set (fold decadeStep ys decadeData)"
  shows "allTopics (topicSums d)"
  using assms
proof (induction ys arbitrary: decadeData)
  case Nil
  then show ?case by simp
next
  case (Cons y ys)
  show ?case
  proof (rule Cons.IH)
    show "(k, d) \<in> set (fold decadeStep ys (decadeStep y decadeData))"
      using Cons.prems(2) by simp
    show "allTopics (topicSums d')" if "(k', d') \<in> set (decadeStep y decadeData)" for k' d'
      using allTopics_decadeStep[OF Cons.prems(1) that] .
  qed
qed

lemma allTopics_averageDecade:
  "allTopics (topicSums d) \<Longrightarrow> allTopics (topicSums (averageDecade d))"
  by (simp add: averageDecade_def allTopics_dom dom_divideSums)

lemma fold_addAt_other:
  "k \<notin> set xs \<Longrightarrow>
   fold (\<lambda>i obj. case g i of None \<Rightarrow> obj | Some v \<Rightarrow> addAt obj i (h v)) xs obj k = obj k"
  by (induction xs arbitrary: obj) (auto simp: addAt_def split: option.splits)

lemma addYear_Topic_1: "addYear yearItem ts 1 = ts 1"
proof -
  have "(1::nat) \<notin> set [2..<14]" by simp
  then show ?thesis
    unfolding addYear_def
    by (rule fold_addAt_other[where g = "topicDistribution yearItem"
          and h = "\<lambda>v. v * real (count yearItem)"])
qed

lemma fold_divide_zero:
  "obj k = Some 0 \<Longrightarrow>
   fold (\<lambda>i obj. case obj i of None \<Rightarrow> obj | Some s \<Rightarrow> obj(i \<mapsto> s / c)) xs obj k = Some (0::real)"
proof (induction xs arbitrary: obj)
  case Nil
  then show ?case by simp
next
  case (Cons a xs)
  have "(case obj a of None \<Rightarrow> obj | Some s \<Rightarrow> obj(a \<mapsto> s / c)) k = Some 0"
    using Cons.prems by (cases "obj a") auto
  then show ?case
    using Cons.IH by simp
qed

lemma divideSums_zero: "ts k = Some 0 \<Longrightarrow> divideSums n ts k = Some 0"
  unfolding divideSums_def by (rule fold_divide_zero)

lemma Topic_1_decadeStep:
  assumes "\<And>k d. (k, d) \<in> set decadeData \<Longrightarrow> topicSums d 1 = Some 0"
    and "(k, d) \<in> set (decadeStep yearItem decadeData)"
  shows "topicSums d 1 = Some 0"
proof -
  define dec where "dec = (year yearItem div 10) * 10"
  define d0 where "d0 = (case map_of decadeData dec of None \<Rightarrow> newDecade dec | Some d \<Rightarrow> d)"
  define d1 where "d1 = d0\<lparr>totalBooks := totalBooks d0 + count yearItem,
              years := years d0 @ [yearItem],
              topicSums := addYear yearItem (topicSums d0)\<rparr>"
  have step: "decadeStep yearItem decadeData = AList.update dec d1 decadeData"
    by (simp only: decadeStep_def Let_def dec_def d0_def d1_def)
  have a0: "topicSums d0 1 = Some 0"
  proof (cases "map_of decadeData dec")
    case None
    then show ?thesis by (simp add: d0_def newDecade_def zeroSums_def fold_zero_apply)
  next
    case (Some x)
    then have "(dec, x) \<in> set decadeData" by (rule map_of_SomeD)
    then show ?thesis using assms(1) Some by (simp add: d0_def)
  qed
  have a1: "topicSums d1 1 = Some 0"
    using a0 addYear_Topic_1[of yearItem "topicSums d0"] by (simp add: d1_def)
  from assms(2) have "(k, d) = (dec, d1) \<or> (k, d) \<in> set decadeData"
    unfolding step by (rule update_member)
  then show ?thesis using a1 assms(1) by auto
qed

lemma Topic_1_fold_decadeStep:
  assumes "\<And>k d. (k, d) \<in> set decadeData \<Longrightarrow> topicSums d 1 = Some 0"
    and "(k, d) \<in> set (fold decadeStep ys decadeData)"
  shows "topicSums d 1 = Some 0"
  using assms
proof (induction ys arbitrary: decadeData)
  case Nil
  then show ?case by simp
next
  case (Cons y ys)
  show ?case
  proof (rule Cons.IH)
    show "(k, d) \<in> set (fold decadeStep ys (decadeStep y decadeData))"
      using Cons.prems(2) by simp
    show "topicSums d' 1 = Some 0" if "(k', d') \<in> set (decadeStep y decadeData)" for k' d'
      using Topic_1_decadeStep[OF Cons.prems(1) that] .
  qed
qed

lemma decade_Topic_1_zero:
  assumes "d \<in> set (decadeArray booksByYear)"
  shows "topicSums d 1 = Some 0"
proof -
  from assms obtain k d0 where
    m: "(k, d0) \<in> set (fold decadeStep (yearData booksByYear) [])" and d: "d = finishDecade d0"
    by (auto simp: decadeArray_def)
  have "topicSums d0 1 = Some 0"
    by (rule Topic_1_fold_decadeStep[OF _ m]) simp
  then show ?thesis
    using divideSums_zero[of "topicSums d0" 1 "totalBooks d0"]
    by (simp add: d finishDecade_def Let_def averageDecade_def)
qed

text \<open>
  The scan itself is sound: the dominant topic of a decade is the lowest topic whose
  stored sum is maximal.
\<close>

lemma dominantTopic_stored_sums:
  assumes "d \<in> set (decadeArray booksByYear)"
  shows "\<exists>k v. dominantTopic d = Some k \<and> k \<in> {1..13} \<and> topicSums d k = Some v
           \<and> (\<forall>j\<in>{1..13}. \<exists>u. topicSums d j = Some u \<and> u \<le> v \<and> (j < k \<longrightarrow> u < v))"
proof -
  from assms obtain k d0 where
    m: "(k, d0) \<in> set (fold decadeStep (yearData booksByYear) [])" and d: "d = finishDecade d0"
    by (auto simp: decadeArray_def)
  have "allTopics (topicSums d0)"
    by (rule allTopics_fold_decadeStep[OF _ m]) simp
  then have "allTopics (topicSums (averageDecade d0))"
    by (rule allTopics_averageDecade)
  from scanDominant_first_max[OF this] show ?thesis
    by (simp add: d finishDecade_def Let_def)
qed

text \<open>
  C1. The claim is right and the code is not: the loop that adds the weighted yearly means
  into the decade starts at topic 2, so the decade mean of \<open>Topic_1\<close> is 0 in every
  decade (\<open>decade_Topic_1_zero\<close>). One document of 1950 whose weight is all on topic 1:
  the yearly mean of topic 1 is 1, the weighted sum over the decade's document count is
  1, the decade holds 0.
\<close>

theorem decade_mean_skips_Topic_1:
  "map (\<lambda>(y, e). (y, count e, topicDistribution e 1))
     (aggregateBooksByYear [row None (Some 1950) [1]]) = [(1950, 1, Some 1)]
   \<and> spec_decadeMean (aggregateBooksByYear [row None (Some 1950) [1]]) 1950 1 = 1
   \<and> map (\<lambda>d. (decade d, totalBooks d, topicSums d 1))
       (decadeArray (aggregateBooksByYear [row None (Some 1950) [1]])) = [(1950, 1, Some 0)]"
  by code_simp

text \<open>
  C7. The claim is right and the code is not, by the defect of C1: the scan runs over the
  stored sums, where \<open>Topic_1\<close> is 0, not over the decade means. One document of 1950
  with the weights 0.6 and 0.4 on the topics 1 and 2: the decade means of the thirteen
  topics are 0.6, 0.4 and eleven times 0, so that topic 1 has the maximal mean; the decade
  holds 0 for topic 1 and 0.4 for topic 2, and its dominant topic is topic 2.
\<close>

theorem dominantTopic_misses_Topic_1:
  "map (spec_decadeMean (aggregateBooksByYear [row None (Some 1950) [6 / 10, 4 / 10]]) 1950)
     [1, 2, 3, 4, 5, 6, 7, 8, 9, 10, 11, 12, 13]
     = [6 / 10, 4 / 10, 0, 0, 0, 0, 0, 0, 0, 0, 0, 0, 0]
   \<and> map (\<lambda>d. (decade d, dominantTopic d, topicSums d 1, topicSums d 2))
       (decadeArray (aggregateBooksByYear [row None (Some 1950) [6 / 10, 4 / 10]]))
     = [(1950, Some 2, Some 0, Some (4 / 10))]"
  by code_simp

section \<open>Keyword merger: the merged lists\<close>

lemma enhanceStep_target:
  "enhanceStep topics r st =
     (case target topics r of None \<Rightarrow> st
      | Some t \<Rightarrow> st[keywords' t := addNew (word r) (st ! keywords' t)])"
  by (auto simp: enhanceStep_def target_def addNew_def split: option.splits)

lemma length_enhanceStep: "length (enhanceStep topics r st) = length st"
  by (simp add: enhanceStep_target split: option.splits)

lemma fold_enhanceStep_nth:
  assumes "a < length st"
  shows "fold (enhanceStep topics) rows st ! a =
     fold addNew
       (map word (filter (\<lambda>r. map_option keywords' (target topics r) = Some a) rows)) (st ! a)"
  using assms
proof (induction rows arbitrary: st)
  case Nil
  show ?case by simp
next
  case (Cons r rows)
  have l: "a < length (enhanceStep topics r st)"
    using Cons.prems by (simp add: length_enhanceStep)
  show ?case
  proof (cases "map_option keywords' (target topics r) = Some a")
    case True
    then have "enhanceStep topics r st ! a = addNew (word r) (st ! a)"
      using Cons.prems by (auto simp: enhanceStep_target split: option.splits)
    then show ?thesis using Cons.IH[OF l] True by auto
  next
    case False
    then have "enhanceStep topics r st ! a = st ! a"
      using Cons.prems by (auto simp: enhanceStep_target split: option.splits)
    then show ?thesis using Cons.IH[OF l] False by auto
  qed
qed

lemma firstSeen_set: "set (firstSeen xs) = set xs"
  by (induction xs rule: firstSeen.induct) auto

lemma firstSeen_distinct: "distinct (firstSeen xs)"
  by (induction xs rule: firstSeen.induct) (auto simp: firstSeen_set)

lemma fold_addNew:
  "fold addNew ws base = base @ firstSeen (filter (\<lambda>w. w \<notin> set base) ws)"
proof (induction ws arbitrary: base)
  case Nil
  show ?case by simp
next
  case (Cons w ws)
  show ?case
  proof (cases "w \<in> set base")
    case True
    then have "addNew w base = base" by (simp add: addNew_def)
    then show ?thesis using True by (simp add: Cons.IH)
  next
    case False
    then have w: "addNew w base = base @ [w]" by (simp add: addNew_def)
    have "filter (\<lambda>x. x \<notin> set (base @ [w])) ws
        = filter (\<lambda>y. y \<noteq> w) (filter (\<lambda>x. x \<notin> set base) ws)"
      by (auto intro: filter_cong)
    then show ?thesis using False w by (simp add: Cons.IH)
  qed
qed

lemma target_mem: "target topics r = Some t \<Longrightarrow> t \<in> set topics"
  by (auto simp: target_def find_Some_iff split: if_splits)

lemma target_address:
  assumes "distinct (map keywords' topics)" "t \<in> set topics"
  shows "map_option keywords' (target topics r) = Some (keywords' t) \<longleftrightarrow> target topics r = Some t"
proof
  assume "map_option keywords' (target topics r) = Some (keywords' t)"
  then obtain u where u: "target topics r = Some u" "keywords' u = keywords' t" by auto
  then have "u \<in> set topics" by (simp add: target_mem)
  with assms u(2) have "u = t" by (meson distinct_map inj_onD)
  then show "target topics r = Some t" using u by simp
qed simp

text \<open>
  C2. The claim is right and the code is not: \<open>[...topicKeywords]\<close> copies the outer array
  only, the entries and their keyword arrays are shared, and \<open>topic.keywords.push(word)\<close>
  writes into the argument. The base entry built from the row \<open>a, c\<close> holds \<open>a, c\<close> before
  the call and \<open>a, c, b\<close> after it.
\<close>

theorem enhanceTopicKeywords_changes_argument:
  "(let (st, topicKeywords) = prepareTopicKeywords [] [[''topic''], [''a'', ''c'']] [];
        (st', enhanced) = enhanceTopicKeywords st topicKeywords [\<lparr>topic_id = 1, word = ''b''\<rparr>]
    in (map (\<lambda>t. st ! keywords' t) topicKeywords, map (\<lambda>t. st' ! keywords' t) topicKeywords))
   = ([[''a'', ''c'']], [[''a'', ''c'', ''b'']])"
  by code_simp

text \<open>
  C3, as the specification states it, fails: the merger never looks for duplicates inside
  the base list, and \<open>prepareTopicKeywords\<close> copies a keyword row as it is (empty strings
  apart). The row \<open>a, a\<close> comes back as \<open>a, a\<close>.
\<close>

theorem merged_keywords_duplicate_counterexample:
  "(let (st, topicKeywords) = prepareTopicKeywords [] [[''topic''], [''a'', ''a'']] [];
        (st', enhanced) = enhanceTopicKeywords st topicKeywords []
    in map (\<lambda>t. (st' ! keywords' t, distinct (st' ! keywords' t))) enhanced)
   = [([''a'', ''a''], False)]"
  by code_simp

text \<open>
  C3, amended. For base entries that hold separate keyword arrays, each returned keyword
  list is the base list, in its order, followed by the words of the rows merged into the
  entry that the base list does not contain, in the order in which they are first seen
  and without repetition. It has no duplicate words whenever the base list has none.
\<close>

theorem merged_keywords:
  assumes "\<forall>t\<in>set topicKeywords. keywords' t < length st"
    and "distinct (map keywords' topicKeywords)"
    and "enhanceTopicKeywords st topicKeywords expandedWordlist = (st', enhanced)"
    and "t \<in> set enhanced"
  shows "st' ! keywords' t =
           st ! keywords' t @
           firstSeen (filter (\<lambda>w. w \<notin> set (st ! keywords' t))
             (map word (filter (\<lambda>r. target topicKeywords r = Some t) expandedWordlist)))
         \<and> (distinct (st ! keywords' t) \<longrightarrow> distinct (st' ! keywords' t))
         \<and> enhanced = topicKeywords"
proof -
  from assms(3) have e: "enhanced = topicKeywords"
    and s: "st' = fold (enhanceStep topicKeywords) expandedWordlist st"
    by (auto simp: enhanceTopicKeywords_def)
  have t: "t \<in> set topicKeywords" using assms(4) e by simp
  then have a: "keywords' t < length st" using assms(1) by simp
  have "st' ! keywords' t =
      st ! keywords' t @
      firstSeen (filter (\<lambda>w. w \<notin> set (st ! keywords' t))
        (map word (filter (\<lambda>r. target topicKeywords r = Some t) expandedWordlist)))"
    unfolding s fold_enhanceStep_nth[OF a] fold_addNew target_address[OF assms(2) t] ..
  moreover from this have "distinct (st' ! keywords' t)" if "distinct (st ! keywords' t)"
    using that by (auto simp: firstSeen_distinct firstSeen_set)
  ultimately show ?thesis using e by simp
qed


theorem merged_keywords_witness:
  "keywords' \<lparr>id' = 1, name = ''T'', keywords' = 0\<rparr> < length [[''a'', ''c'']]
   \<and> distinct (map keywords' [\<lparr>id' = 1, name = ''T'', keywords' = 0\<rparr>])
   \<and> enhanceTopicKeywords [[''a'', ''c'']] [\<lparr>id' = 1, name = ''T'', keywords' = 0\<rparr>]
        [\<lparr>topic_id = 1, word = ''b''\<rparr>, \<lparr>topic_id = 1, word = ''a''\<rparr>,
         \<lparr>topic_id = 1, word = ''b''\<rparr>, \<lparr>topic_id = 2, word = ''d''\<rparr>]
      = ([[''a'', ''c'', ''b'']], [\<lparr>id' = 1, name = ''T'', keywords' = 0\<rparr>])
   \<and> \<lparr>id' = 1, name = ''T'', keywords' = 0\<rparr> \<in> set [\<lparr>id' = 1, name = ''T'', keywords' = 0\<rparr>]
   \<and> distinct ([[''a'', ''c'']] ! keywords' \<lparr>id' = 1, name = ''T'', keywords' = 0\<rparr>)
   \<and> distinct ([[''a'', ''c'', ''b'']] ! keywords' \<lparr>id' = 1, name = ''T'', keywords' = 0\<rparr>)"
proof -
  have h0: "keywords' \<lparr>id' = 1, name = ''T'', keywords' = 0\<rparr> < length [[''a'', ''c'']]"
    by simp
  then have h1: "\<forall>t\<in>set [\<lparr>id' = 1, name = ''T'', keywords' = 0\<rparr>]. keywords' t < length [[''a'', ''c'']]"
    by simp
  have h2: "distinct (map keywords' [\<lparr>id' = 1, name = ''T'', keywords' = 0\<rparr>])"
    by simp
  have h3: "enhanceTopicKeywords [[''a'', ''c'']] [\<lparr>id' = 1, name = ''T'', keywords' = 0\<rparr>]
        [\<lparr>topic_id = 1, word = ''b''\<rparr>, \<lparr>topic_id = 1, word = ''a''\<rparr>,
         \<lparr>topic_id = 1, word = ''b''\<rparr>, \<lparr>topic_id = 2, word = ''d''\<rparr>]
      = ([[''a'', ''c'', ''b'']], [\<lparr>id' = 1, name = ''T'', keywords' = 0\<rparr>])"
    by code_simp
  have h4: "\<lparr>id' = 1, name = ''T'', keywords' = 0\<rparr> \<in> set [\<lparr>id' = 1, name = ''T'', keywords' = 0\<rparr>]"
    by simp
  have h5: "distinct ([[''a'', ''c'']] ! keywords' \<lparr>id' = 1, name = ''T'', keywords' = 0\<rparr>)"
    by simp
  from merged_keywords[OF h1 h2 h3 h4] h5
  have "distinct ([[''a'', ''c'', ''b'']] ! keywords' \<lparr>id' = 1, name = ''T'', keywords' = 0\<rparr>)"
    by blast
  with h0 h2 h3 h4 h5 show ?thesis by blast
qed

section \<open>Author aggregator: the ranking\<close>

lemma authorStep_skip: "authorOf d = None \<Longrightarrow> authorStep f d m = m"
  by (auto simp: authorStep_def authorOf_def split: option.splits if_splits)

lemma authorStep_update:
  assumes "authorOf d = Some k"
  shows "\<exists>v. authorStep f d m = AList.update k v m
            \<and> countD v = cnt m k + 1
            \<and> nameD v = (case map_of m k of None \<Rightarrow> k | Some a \<Rightarrow> nameD a)"
proof -
  from assms obtain a where a: "Author d = Some a" "\<not> (a = [] \<or> trim a = [])" "trim a = k"
    by (auto simp: authorOf_def split: option.splits if_splits)
  define ad where "ad = (case map_of m k of
      None \<Rightarrow> \<lparr>nameD = k, countD = 0, booksD = [], topicSumsD = zeroTopics\<rparr> | Some ad \<Rightarrow> ad)"
  define v where "v = \<lparr>nameD = nameD ad, countD = countD ad + 1,
      booksD = (case Book_Title d of None \<Rightarrow> booksD ad
                | Some t \<Rightarrow> if t = [] then booksD ad else List.insert t (booksD ad)),
      topicSumsD = addTopics f d (topicSumsD ad)\<rparr>"
  have nb: "(a = [] \<or> k = []) = False" using a by simp
  have "authorStep f d m = AList.update k v m"
    unfolding authorStep_def Let_def v_def ad_def
    by (simp only: a(1,3) nb option.case if_False)
  moreover have "countD v = cnt m k + 1"
    by (simp add: v_def ad_def cnt_def split: option.splits)
  moreover have "nameD v = (case map_of m k of None \<Rightarrow> k | Some a \<Rightarrow> nameD a)"
    by (simp add: v_def ad_def split: option.splits)
  ultimately show ?thesis by blast
qed

lemma authorStep_keys:
  "map fst (authorStep f d m) =
     (case authorOf d of None \<Rightarrow> map fst m | Some k \<Rightarrow> addNew k (map fst m))"
proof (cases "authorOf d")
  case None
  then show ?thesis by (simp add: authorStep_skip)
next
  case (Some k)
  from authorStep_update[OF this, of f m] obtain v where
    "authorStep f d m = AList.update k v m" by blast
  then show ?thesis
    using Some by (simp only: update_keys addNew_def option.case)
qed

lemma authorStep_cnt:
  "cnt (authorStep f d m) k = cnt m k + (if authorOf d = Some k then 1 else 0)"
proof (cases "authorOf d")
  case None
  then show ?thesis by (simp add: authorStep_skip)
next
  case (Some k')
  from authorStep_update[OF this, of f m] obtain v where
    v: "authorStep f d m = AList.update k' v m" "countD v = cnt m k' + 1"
    by blast
  show ?thesis
    using Some v by (simp add: cnt_def update_conv')
qed

lemma fold_authorStep_cnt:
  "cnt (fold (authorStep f) docs m) k = cnt m k + length (filter (\<lambda>d. authorOf d = Some k) docs)"
  by (induction docs arbitrary: m) (simp_all add: authorStep_cnt)

lemma authorStep_wellKeyed:
  assumes "wellKeyed m"
  shows "wellKeyed (authorStep f d m)"
proof (cases "authorOf d")
  case None
  then show ?thesis using assms by (simp add: authorStep_skip)
next
  case (Some k)
  from authorStep_update[OF this, of f m] obtain v where
    v: "authorStep f d m = AList.update k v m"
       "nameD v = (case map_of m k of None \<Rightarrow> k | Some a \<Rightarrow> nameD a)"
    by blast
  have "nameD v = k"
  proof (cases "map_of m k")
    case None
    then show ?thesis using v(2) by simp
  next
    case (Some a)
    then have "(k, a) \<in> set m" by (rule map_of_SomeD)
    then show ?thesis using assms Some v(2) by (auto simp: wellKeyed_def)
  qed
  then show ?thesis
    using assms unfolding v(1) wellKeyed_def
    by (auto simp: distinct_update dest!: update_member)
qed

lemma fold_authorStep_wellKeyed:
  "wellKeyed m \<Longrightarrow> wellKeyed (fold (authorStep f) docs m)"
  by (induction docs arbitrary: m) (simp_all add: authorStep_wellKeyed)

lemma fold_authorStep_keys:
  "map fst (fold (authorStep f) docs m) = fold addNew (List.map_filter authorOf docs) (map fst m)"
proof (induction docs arbitrary: m)
  case Nil
  show ?case by (simp add: List.map_filter_simps)
next
  case (Cons d docs)
  show ?case
    by (cases "authorOf d") (simp_all add: Cons.IH authorStep_keys List.map_filter_simps)
qed


lemma toAuthor_name_count: "nameA (toAuthor a) = nameD a \<and> countA (toAuthor a) = countD a"
  by (simp only: toAuthor_def Let_def author.simps simp_thms)

lemma authors_names:
  "map nameA (authors docs) = firstSeen (List.map_filter authorOf docs)"
proof -
  define m where "m = fold (authorStep (needsNormalization docs)) docs []"
  have "wellKeyed m"
    unfolding m_def by (rule fold_authorStep_wellKeyed) (simp add: wellKeyed_def)
  then have "map nameA (map (\<lambda>(k, a). toAuthor a) m) = map fst m"
    by (auto simp: wellKeyed_def toAuthor_name_count)
  moreover have "map fst m = firstSeen (List.map_filter authorOf docs)"
    unfolding m_def fold_authorStep_keys fold_addNew by simp
  ultimately show ?thesis
    by (simp only: authors_def m_def)
qed

lemma authors_count:
  assumes "a \<in> set (authors docs)"
  shows "countA a = length (filter (\<lambda>d. authorOf d = Some (nameA a)) docs)"
proof -
  define m where "m = fold (authorStep (needsNormalization docs)) docs []"
  have w: "wellKeyed m"
    unfolding m_def by (rule fold_authorStep_wellKeyed) (simp add: wellKeyed_def)
  from assms obtain k ad where ad: "(k, ad) \<in> set m" "a = toAuthor ad"
    by (auto simp: authors_def m_def)
  have k: "nameD ad = k" using w ad(1) by (auto simp: wellKeyed_def)
  have "map_of m k = Some ad" using w ad(1) by (simp add: wellKeyed_def)
  then have "countD ad = cnt m k" by (simp add: cnt_def)
  also have "\<dots> = length (filter (\<lambda>d. authorOf d = Some k) docs)"
    unfolding m_def fold_authorStep_cnt by (simp add: cnt_def)
  finally show ?thesis by (simp add: ad(2) toAuthor_name_count k)
qed

text \<open>
  C8. The result has at most \<open>topN\<close> authors and is sorted by document count, descending.
  The authors of one document count \<open>c\<close> come back as a prefix of the authors with that
  count in the order of first encounter, which is the order of \<open>authors\<close>: its names are
  the trimmed non-blank author fields of the documents as first seen. No author left out
  has more documents than a returned one. A document whose author is absent or blank
  after trimming counts for nobody: an author's count is the number of documents filed
  under that name.
\<close>

theorem top_authors:
  "length (getTopAuthors docs topN) \<le> topN
   \<and> sorted_wrt (\<lambda>a b. countA b \<le> countA a) (getTopAuthors docs topN)
   \<and> (\<exists>rest. filter (\<lambda>a. countA a = c) (authors docs)
               = filter (\<lambda>a. countA a = c) (getTopAuthors docs topN) @ rest)
   \<and> map nameA (authors docs) = firstSeen (List.map_filter authorOf docs)
   \<and> (\<forall>a\<in>set (getTopAuthors docs topN).
        \<forall>b\<in>set (authors docs) - set (getTopAuthors docs topN). countA b \<le> countA a)
   \<and> (\<forall>a\<in>set (authors docs).
        countA a = length (filter (\<lambda>d. authorOf d = Some (nameA a)) docs))
   \<and> set (getTopAuthors docs topN) \<subseteq> set (authors docs)"
proof -
  define f where "f = (\<lambda>a :: author. - int (countA a))"
  define s where "s = sort_key f (authors docs)"
  have top: "getTopAuthors docs topN = take topN s"
    by (simp add: getTopAuthors_def s_def f_def)
  have split: "s = take topN s @ drop topN s" by simp
  have "sorted (map f s)" unfolding s_def by (rule sorted_sort_key)
  then have "sorted_wrt (\<lambda>a b. f a \<le> f b) s" by (simp only: sorted_map)
  then have srt: "sorted_wrt (\<lambda>a b. countA b \<le> countA a) s" by (simp add: f_def)
  have c1: "length (getTopAuthors docs topN) \<le> topN" unfolding top by simp
  have c2: "sorted_wrt (\<lambda>a b. countA b \<le> countA a) (getTopAuthors docs topN)"
    unfolding top using srt by (rule sorted_wrt_take)
  have "filter (\<lambda>a. f a = - int c) s = filter (\<lambda>a. f a = - int c) (authors docs)"
    unfolding s_def by (rule sort_key_stable)
  then have "filter (\<lambda>a. countA a = c) (authors docs) = filter (\<lambda>a. countA a = c) s"
    by (simp add: f_def)
  also have "\<dots> = filter (\<lambda>a. countA a = c) (take topN s) @ filter (\<lambda>a. countA a = c) (drop topN s)"
    by (subst split) (simp only: filter_append)
  finally have c3: "\<exists>rest. filter (\<lambda>a. countA a = c) (authors docs)
               = filter (\<lambda>a. countA a = c) (getTopAuthors docs topN) @ rest"
    unfolding top by blast
  have sets: "set s = set (authors docs)" by (simp add: s_def)
  have "sorted_wrt (\<lambda>a b. countA b \<le> countA a) (take topN s @ drop topN s)"
    using srt by simp
  then have ex: "\<forall>a\<in>set (take topN s). \<forall>b\<in>set (drop topN s). countA b \<le> countA a"
    by (simp only: sorted_wrt_append) blast
  have c5: "\<forall>a\<in>set (getTopAuthors docs topN).
        \<forall>b\<in>set (authors docs) - set (getTopAuthors docs topN). countA b \<le> countA a"
  proof (intro ballI)
    fix a b
    assume a: "a \<in> set (getTopAuthors docs topN)"
      and b: "b \<in> set (authors docs) - set (getTopAuthors docs topN)"
    from b have "b \<in> set (take topN s @ drop topN s)" using sets by simp
    with b have "b \<in> set (drop topN s)" unfolding top by (simp only: set_append) blast
    with a ex show "countA b \<le> countA a" unfolding top by blast
  qed
  have c7: "set (getTopAuthors docs topN) \<subseteq> set (authors docs)"
    unfolding top sets[symmetric] by (rule set_take_subset)
  from c1 c2 c3 authors_names c5 authors_count c7 show ?thesis by blast
qed


theorem top_authors_witness:
  "hd (getTopAuthors sixRows 2) \<in> set (getTopAuthors sixRows 2)
   \<and> last (authors sixRows) \<in> set (authors sixRows) - set (getTopAuthors sixRows 2)
   \<and> countA (last (authors sixRows)) \<le> countA (hd (getTopAuthors sixRows 2))
   \<and> hd (authors sixRows) \<in> set (authors sixRows)
   \<and> countA (hd (authors sixRows))
       = length (filter (\<lambda>d. authorOf d = Some (nameA (hd (authors sixRows)))) sixRows)"
proof -
  have n1: "map nameA (getTopAuthors sixRows 2) = [''A'', ''B'']"
    by code_simp
  have n2: "map nameA (authors sixRows) = [''B'', ''A'', ''C'']"
    by code_simp
  have e1: "getTopAuthors sixRows 2 \<noteq> []" using n1 by auto
  have e2: "authors sixRows \<noteq> []" using n2 by auto
  have h1: "hd (getTopAuthors sixRows 2) \<in> set (getTopAuthors sixRows 2)"
    using e1 by (rule hd_in_set)
  have h2: "last (authors sixRows) \<in> set (authors sixRows)"
    using e2 by (rule last_in_set)
  have h3: "hd (authors sixRows) \<in> set (authors sixRows)"
    using e2 by (rule hd_in_set)
  have "nameA (last (authors sixRows)) = last (map nameA (authors sixRows))"
    using e2 by (simp add: last_map)
  then have l: "nameA (last (authors sixRows)) = ''C''"
    by (simp add: n2)
  have "last (authors sixRows) \<notin> set (getTopAuthors sixRows 2)"
  proof
    assume "last (authors sixRows) \<in> set (getTopAuthors sixRows 2)"
    then have "nameA (last (authors sixRows)) \<in> set (map nameA (getTopAuthors sixRows 2))"
      by simp
    then show False by (simp add: l n1)
  qed
  with h2 have h4: "last (authors sixRows) \<in> set (authors sixRows) - set (getTopAuthors sixRows 2)"
    by simp
  from top_authors[of sixRows 2 0] h1 h3 h4 show ?thesis by blast
qed

section \<open>Correlation engine: the matrix\<close>

subsection \<open>Loops that update an array or a matrix in place\<close>

lemma forIdx_map:
  "fold (\<lambda>i m. m[i := g i (m ! i)]) [0..<n] m
   = map (\<lambda>i. if i < n then g i (m ! i) else m ! i) [0..<length m]"
proof (induction n)
  case 0
  show ?case by (simp add: map_nth)
next
  case (Suc n)
  define h where "h = (\<lambda>k i. if i < k then g i (m ! i) else m ! i)"
  define r where "r = map (h n) [0..<length m]"
  have "fold (\<lambda>i m. m[i := g i (m ! i)]) [0..<Suc n] m = r[n := g n (r ! n)]"
    using Suc.IH by (simp add: r_def h_def)
  also have "\<dots> = map (h (Suc n)) [0..<length m]"
  proof (rule nth_equalityI)
    show "length (r[n := g n (r ! n)]) = length (map (h (Suc n)) [0..<length m])"
      by (simp add: r_def)
    fix i
    assume "i < length (r[n := g n (r ! n)])"
    then have i: "i < length m" by (simp add: r_def)
    show "r[n := g n (r ! n)] ! i = map (h (Suc n)) [0..<length m] ! i"
    proof (cases "i = n")
      case True
      then show ?thesis using i by (simp add: r_def h_def)
    next
      case False
      then show ?thesis using i by (auto simp: r_def h_def)
    qed
  qed
  finally show ?case by (simp only: h_def)
qed

lemma forIdx_length: "length (fold (\<lambda>i m. m[i := g i (m ! i)]) [0..<n] m) = length m"
  by (simp add: forIdx_map)

lemma forIdx_nth:
  "i < n \<Longrightarrow> i < length m \<Longrightarrow> fold (\<lambda>i m. m[i := g i (m ! i)]) [0..<n] m ! i = g i (m ! i)"
  by (simp add: forIdx_map)

lemma forRow:
  "fold (\<lambda>j cov. cov[i := (cov ! i)[j := g j (cov ! i ! j)]]) xs cov
   = cov[i := fold (\<lambda>j r. r[j := g j (r ! j)]) xs (cov ! i)]"
proof (induction xs arbitrary: cov)
  case Nil
  show ?case by simp
next
  case (Cons x xs)
  show ?case
    by (cases "i < length cov") (simp_all add: Cons.IH list_update_beyond)
qed

lemma forMatrix_rows:
  "fold (\<lambda>i cov. fold (\<lambda>j cov. cov[i := (cov ! i)[j := g i j (cov ! i ! j)]]) [0..<n] cov)
     [0..<n] cov
   = fold (\<lambda>i cov. cov[i := (\<lambda>i r. fold (\<lambda>j r. r[j := g i j (r ! j)]) [0..<n] r) i (cov ! i)])
       [0..<n] cov"
  by (simp only: forRow)

lemma forMatrix_nth:
  assumes "i < n" "j < n" "i < length cov" "j < length (cov ! i)"
  shows "fold (\<lambda>i cov. fold (\<lambda>j cov. cov[i := (cov ! i)[j := g i j (cov ! i ! j)]]) [0..<n] cov)
           [0..<n] cov ! i ! j = g i j (cov ! i ! j)"
  unfolding forMatrix_rows
  by (subst forIdx_nth[OF assms(1,3)]) (rule forIdx_nth[OF assms(2,4)])

lemma forMatrix_length:
  "length (fold (\<lambda>i cov. fold (\<lambda>j cov. cov[i := (cov ! i)[j := g i j (cov ! i ! j)]]) [0..<n] cov)
           [0..<n] cov) = length cov"
  unfolding forMatrix_rows by (rule forIdx_length)

lemma forMatrix_row_length:
  assumes "i < n" "i < length cov"
  shows "length (fold (\<lambda>i cov. fold (\<lambda>j cov. cov[i := (cov ! i)[j := g i j (cov ! i ! j)]]) [0..<n] cov)
           [0..<n] cov ! i) = length (cov ! i)"
  unfolding forMatrix_rows
  by (subst forIdx_nth[OF assms]) (rule forIdx_length)


lemma accumulate_vector:
  assumes "length m = n" "i < n"
  shows "length (fold (\<lambda>vals m. fold (\<lambda>i m. m[i := h vals i (m ! i)]) [0..<n] m) nd m) = n
       \<and> fold (\<lambda>vals m. fold (\<lambda>i m. m[i := h vals i (m ! i)]) [0..<n] m) nd m ! i
         = fold (\<lambda>vals x. h vals i x) nd (m ! i)"
  using assms
proof (induction nd arbitrary: m)
  case Nil
  then show ?case by simp
next
  case (Cons v nd)
  define m' where "m' = fold (\<lambda>i m. m[i := h v i (m ! i)]) [0..<n] m"
  have l: "length m' = n"
    unfolding m'_def using Cons.prems(1) by (simp only: forIdx_length)
  have e: "m' ! i = h v i (m ! i)"
    unfolding m'_def using Cons.prems by (simp only: forIdx_nth[where g = "h v"])
  from Cons.IH[OF l Cons.prems(2)] show ?case
    by (simp only: fold_simps m'_def[symmetric] e comp_apply)
qed

lemma fold_js_add_Fin:
  "fold (\<lambda>v x. js_add x (Fin (f v))) nd (Fin a) = Fin (a + sum_list (map f nd))"
  by (induction nd arbitrary: a) (simp_all add: add.assoc)

lemma topicMeans_nth:
  assumes "i < numTopics"
  shows "topicMeans nd n ! i = js_div (Fin (\<Sum>vals\<leftarrow>nd. vals ! i)) (Fin (real n))"
proof -
  define S where "S = fold (\<lambda>vals means.
                fold (\<lambda>i means. means[i := js_add (means ! i) (Fin (vals ! i))])
                  [0..<numTopics] means)
          nd (replicate numTopics (Fin 0))"
  have "length S = numTopics
      \<and> S ! i = fold (\<lambda>vals x. js_add x (Fin (vals ! i))) nd (replicate numTopics (Fin 0) ! i)"
    unfolding S_def
    by (rule accumulate_vector[where h = "\<lambda>vals i x. js_add x (Fin (vals ! i))"])
       (simp_all add: assms)
  then have l: "i < length S" and e: "S ! i = Fin (\<Sum>vals\<leftarrow>nd. vals ! i)"
    using assms by (simp_all add: fold_js_add_Fin)
  have "topicMeans nd n ! i = js_div (S ! i) (Fin (real n))"
    unfolding topicMeans_def S_def[symmetric]
    using assms l by (simp only: forIdx_nth[where g = "\<lambda>i x. js_div x (Fin (real n))"])
  then show ?thesis by (simp only: e)
qed

lemma topicMeans_empty:
  assumes "i < numTopics"
  shows "topicMeans [] 0 ! i = NaN"
  using assms by (simp add: topicMeans_nth)

lemma topicVariances_nth:
  assumes "i < numTopics"
  shows "topicVariances nd means ! i
       = fold (\<lambda>vals x. js_add x (js_mul (deviation vals means i) (deviation vals means i)))
           nd (Fin 0)"
proof -
  have "length (topicVariances nd means) = numTopics
      \<and> topicVariances nd means ! i
        = fold (\<lambda>vals x. js_add x (js_mul (deviation vals means i) (deviation vals means i)))
            nd (replicate numTopics (Fin 0) ! i)"
    unfolding topicVariances_def
    by (rule accumulate_vector[where h = "\<lambda>vals i x.
          js_add x (js_mul (deviation vals means i) (deviation vals means i))"])
       (simp_all add: assms)
  then show ?thesis using assms by simp
qed

lemma topicVariances_length: "length (topicVariances nd means) = numTopics"
proof -
  have "0 < numTopics" by (simp add: numTopics_def)
  then have "length (topicVariances nd means) = numTopics
      \<and> topicVariances nd means ! 0
        = fold (\<lambda>vals x. js_add x (js_mul (deviation vals means 0) (deviation vals means 0)))
            nd (replicate numTopics (Fin 0) ! 0)"
    unfolding topicVariances_def
    by (intro accumulate_vector[where h = "\<lambda>vals i x.
          js_add x (js_mul (deviation vals means i) (deviation vals means i))"])
       simp_all
  then show ?thesis by simp
qed

lemma topicStdDevs_nth:
  assumes "i < numTopics"
  shows "topicStdDevs nd means n ! i
       = js_sqrt (js_div (fold (\<lambda>vals x. js_add x
                    (js_mul (deviation vals means i) (deviation vals means i))) nd (Fin 0))
                  (Fin (real n)))"
  using assms by (simp add: topicStdDevs_def topicVariances_length topicVariances_nth)

lemma topicStdDevs_empty:
  assumes "i < numTopics"
  shows "topicStdDevs [] means 0 ! i = NaN"
  by (simp add: topicStdDevs_nth[OF assms])

lemma correlationMatrix_nth:
  assumes "i < numTopics" "j < numTopics"
  shows "correlationMatrix cov std ! i ! j
       = (if js_gt (std ! i) (Fin 0) \<and> js_gt (std ! j) (Fin 0)
          then js_div (cov ! i ! j) (js_mul (std ! i) (std ! j))
          else Fin 0)"
  unfolding correlationMatrix_def
  using assms
  by (simp only: forMatrix_nth[where g = "\<lambda>i j x.
        if js_gt (std ! i) (Fin 0) \<and> js_gt (std ! j) (Fin 0)
        then js_div (cov ! i ! j) (js_mul (std ! i) (std ! j)) else Fin 0"]
      length_replicate nth_replicate)

lemma correlationMatrix_square: "square numTopics (correlationMatrix cov std)"
proof -
  define g where "g = (\<lambda>i j (x :: jsnum).
        if js_gt (std ! i) (Fin 0) \<and> js_gt (std ! j) (Fin 0)
        then js_div (cov ! i ! j) (js_mul (std ! i) (std ! j)) else Fin 0)"
  define Z where "Z = replicate numTopics (replicate numTopics (Fin (0::real)))"
  have d: "correlationMatrix cov std
      = fold (\<lambda>i corr. fold (\<lambda>j corr. corr[i := (corr ! i)[j := g i j (corr ! i ! j)]])
          [0..<numTopics] corr) [0..<numTopics] Z"
    by (simp only: correlationMatrix_def g_def Z_def)
  have "length (correlationMatrix cov std) = numTopics"
    unfolding d by (simp only: forMatrix_length Z_def length_replicate)
  moreover have "length (correlationMatrix cov std ! k) = numTopics" if "k < numTopics" for k
    unfolding d using that by (simp add: forMatrix_row_length Z_def)
  ultimately show ?thesis by (simp add: square_def)
qed

lemma topicMeans_length: "length (topicMeans nd n) = numTopics"
proof -
  define S where "S = fold (\<lambda>vals means.
                fold (\<lambda>i means. means[i := js_add (means ! i) (Fin (vals ! i))])
                  [0..<numTopics] means)
          nd (replicate numTopics (Fin 0))"
  have "0 < numTopics" by (simp add: numTopics_def)
  then have "length S = numTopics
      \<and> S ! 0 = fold (\<lambda>vals x. js_add x (Fin (vals ! 0))) nd (replicate numTopics (Fin 0) ! 0)"
    unfolding S_def
    by (intro accumulate_vector[where h = "\<lambda>vals i x. js_add x (Fin (vals ! i))"]) simp_all
  then have "length S = numTopics" by simp
  then show ?thesis
    unfolding topicMeans_def S_def[symmetric]
    by (simp only: forIdx_length[where g = "\<lambda>i x. js_div x (Fin (real n))"])
qed

text \<open>
  C10. On the empty collection the yearly aggregator returns the empty mapping, the
  author aggregator the empty sequence, and the correlation engine the 13 by 13 matrix
  of zeros. The sample mean 0/0 is NaN and the decision is false; the topic means and
  the standard deviations are NaN, and the guard \<open>std > 0\<close>, false on NaN, puts 0 into
  every entry.
\<close>

theorem empty_collection:
  "aggregateBooksByYear [] = []
   \<and> getTopAuthors [] topN = []
   \<and> calculateTopicCorrelations [] = replicate 13 (replicate 13 (Fin 0))
   \<and> avgTotal [] = NaN
   \<and> \<not> needsNormalization []
   \<and> topicMeans (normalizedDocs []) (length ([] :: doc list)) = replicate 13 NaN
   \<and> topicStdDevs (normalizedDocs []) (topicMeans (normalizedDocs []) 0) (length ([] :: doc list))
       = replicate 13 NaN"
proof -
  have c1: "aggregateBooksByYear [] = []"
    by (simp add: aggregateBooksByYear_def)
  have c2: "getTopAuthors [] topN = []"
    by (simp add: getTopAuthors_def authors_def)
  have sq: "square numTopics (calculateTopicCorrelations [])"
    by (simp only: calculateTopicCorrelations_def Let_def correlationMatrix_square)
  have c3: "calculateTopicCorrelations [] = replicate 13 (replicate 13 (Fin 0))"
  proof (rule nth_equalityI)
    show "length (calculateTopicCorrelations []) = length (replicate 13 (replicate 13 (Fin (0::real))))"
      using sq by (simp add: square_def numTopics_def)
    fix i
    assume "i < length (calculateTopicCorrelations [])"
    then have i: "i < numTopics" using sq by (simp add: square_def)
    have "calculateTopicCorrelations [] ! i = replicate 13 (Fin 0)"
    proof (rule nth_equalityI)
      show "length (calculateTopicCorrelations [] ! i) = length (replicate 13 (Fin (0::real)))"
        using sq i by (simp add: square_def numTopics_def)
      fix j
      assume "j < length (calculateTopicCorrelations [] ! i)"
      then have j: "j < numTopics" using sq i by (simp add: square_def)
      have "calculateTopicCorrelations [] ! i ! j = Fin 0"
        using i j
        by (simp add: calculateTopicCorrelations_def Let_def normalizedDocs_def
            correlationMatrix_nth topicStdDevs_empty)
      then show "calculateTopicCorrelations [] ! i ! j = replicate 13 (Fin 0) ! j"
        using j by (simp add: numTopics_def)
    qed
    then show "calculateTopicCorrelations [] ! i = replicate 13 (replicate 13 (Fin 0)) ! i"
      using i by (simp add: numTopics_def)
  qed
  have c4: "avgTotal [] = NaN"
    by (simp add: avgTotal_def sampleTotal_def sampleSize_def)
  have c5: "\<not> needsNormalization []"
    by (simp add: needsNormalization_def c4 js_lt_def)
  have c6: "topicMeans (normalizedDocs []) (length ([] :: doc list)) = replicate 13 NaN"
    by (rule nth_equalityI)
       (simp_all add: topicMeans_length topicMeans_empty normalizedDocs_def numTopics_def)
  have c7: "topicStdDevs (normalizedDocs []) (topicMeans (normalizedDocs []) 0)
        (length ([] :: doc list)) = replicate 13 NaN"
    by (rule nth_equalityI)
       (simp_all add: topicStdDevs_def topicVariances_length topicVariances_nth
         normalizedDocs_def numTopics_def)
  from c1 c2 c3 c4 c5 c6 c7 show ?thesis by blast
qed

end
